theory Spec2Isabelle
  imports Complex_Main
begin

section \<open>Event detection in nelpy/utils.py\<close>

text \<open>
  The functions \<open>get_contiguous_segments\<close>, \<open>find_threshold_crossing_events\<close> and
  \<open>get_events_boundaries\<close> of \<^verbatim>\<open>nelpy/utils.py\<close>, over numpy arrays. Samples,
  thresholds and durations are real numbers (a float that is not \<open>nan\<close>); indices are
  natural numbers, and integers where the source lets them go negative. Warnings and
  printing do not change what a call returns and are left out.
\<close>

subsection \<open>Errors and arrays\<close>

datatype error = TypeError | NotImplementedError | AssertionError | IndexError | ValueError

text \<open>An ndarray of numbers: its shape and its elements in row-major order.\<close>

record ndarray =
  shape :: "nat list"
  data :: "real list"

definition ndim :: "ndarray \<Rightarrow> nat" where
  "ndim a = length (shape a)"

text \<open>\<^verbatim>\<open>x.squeeze()\<close>: the axes of length one are removed, the elements stay.\<close>

definition squeeze :: "ndarray \<Rightarrow> ndarray" where
  "squeeze a = a\<lparr>shape := filter (\<lambda>d. d \<noteq> 1) (shape a)\<rparr>"

text \<open>The one-dimensional array of a sequence of samples.\<close>

definition array :: "real list \<Rightarrow> ndarray" where
  "array xs = \<lparr>shape = [length xs], data = xs\<rparr>"

text \<open>
  What \<open>find_threshold_crossing_events\<close> is given by \<open>get_events_boundaries\<close>: an array
  of no dimension (one number, which \<open>squeeze\<close> makes of a single sample) or of one
  dimension.
\<close>

datatype samples = Scalar real | Vector "real list"

definition as_samples :: "ndarray \<Rightarrow> samples" where
  "as_samples a = (if ndim a = 0 then Scalar (hd (data a)) else Vector (data a))"

text \<open>
  Indexing one axis with an integer, as numpy does: a negative index counts from the
  end, an index out of range raises IndexError.
\<close>

definition getitem :: "'a list \<Rightarrow> int \<Rightarrow> error + 'a" where
  "getitem xs i =
     (let n = int (length xs); j = (if i < 0 then i + n else i)
      in if 0 \<le> j \<and> j < n then Inr (xs ! nat j) else Inl IndexError)"

text \<open>Indexing with an array of integers, \<^verbatim>\<open>a[idx]\<close> and \<^verbatim>\<open>a[idx,:]\<close>: one element (row) for each index.\<close>

fun take_indices :: "'a list \<Rightarrow> int list \<Rightarrow> error + 'a list" where
  "take_indices xs [] = Inr []"
| "take_indices xs (i # is) =
     (case getitem xs i of
        Inl e \<Rightarrow> Inl e
      | Inr v \<Rightarrow> (case take_indices xs is of Inl e \<Rightarrow> Inl e | Inr vs \<Rightarrow> Inr (v # vs)))"

text \<open>
  Indexing with a boolean mask, \<^verbatim>\<open>a[[mask]]\<close>: the elements (rows) where the mask is
  true. The source writes the mask inside a list, which the numpy of its time reads as
  the tuple \<^verbatim>\<open>(mask,)\<close>, that is as \<^verbatim>\<open>a[mask]\<close>. Each mask of the source is
  computed from an array as long as the one it indexes (lemmas \<open>take_mask_self\<close>,
  \<open>outer_windows_lengths\<close> and \<open>take_mask_rows\<close> below).
\<close>

definition take_mask :: "'a list \<Rightarrow> bool list \<Rightarrow> 'a list" where
  "take_mask xs keep = map fst (filter snd (zip xs keep))"

text \<open>\<^verbatim>\<open>x[a:b]\<close> with \<open>0 \<le> a\<close> and \<open>0 \<le> b\<close>.\<close>

definition slice :: "'a list \<Rightarrow> nat \<Rightarrow> nat \<Rightarrow> 'a list" where
  "slice xs a b = drop a (take b xs)"

text \<open>\<^verbatim>\<open>a.max()\<close>: the greatest element; ValueError on an empty array.\<close>

definition amax :: "real list \<Rightarrow> error + real" where
  "amax xs = (case xs of [] \<Rightarrow> Inl ValueError | v # vs \<Rightarrow> Inr (fold max vs v))"

subsection \<open>itertools.groupby\<close>

text \<open>Consecutive elements with the same key make one group, paired with that key.\<close>

function groupby :: "('a \<Rightarrow> 'k) \<Rightarrow> 'a list \<Rightarrow> ('k \<times> 'a list) list" where
  "groupby key [] = []"
| "groupby key (a # as) =
     (key a, a # takeWhile (\<lambda>b. key b = key a) as)
       # groupby key (dropWhile (\<lambda>b. key b = key a) as)"
  by pat_completeness auto
termination
  by (relation "measure (\<lambda>(key, xs). length xs)")
     (auto simp: length_dropWhile_le le_imp_less_Suc)

subsection \<open>find_threshold_crossing_events\<close>

text \<open>\<^verbatim>\<open>np.where(x > threshold, 1, 0)\<close> and \<^verbatim>\<open>np.where(x < threshold, 1, 0)\<close>.\<close>

definition where_above :: "real list \<Rightarrow> real \<Rightarrow> nat list" where
  "where_above x threshold = map (\<lambda>v. if v > threshold then 1 else 0) x"

definition where_below :: "real list \<Rightarrow> real \<Rightarrow> nat list" where
  "where_below x threshold = map (\<lambda>v. if v < threshold then 1 else 0) x"

text \<open>
  The loop over the groups: a group whose key is true appends its first and last index
  to \<open>eventlist\<close> and the maximum of \<^verbatim>\<open>x[first:last+1]\<close> to \<open>eventmax\<close>; when taking the
  maximum raises, the source prints and goes on.
\<close>

fun crossing_loop ::
  "real list \<Rightarrow> (nat \<times> (nat \<times> nat) list) list \<Rightarrow> (nat \<times> nat) list \<times> real list
     \<Rightarrow> (nat \<times> nat) list \<times> real list" where
  "crossing_loop x [] (eventlist, eventmax) = (eventlist, eventmax)"
| "crossing_loop x ((k, v) # groups) (eventlist, eventmax) =
     (if k \<noteq> 0 then
        crossing_loop x groups
          (eventlist @ [(fst (hd v), fst (last v))],
           (case amax (slice x (fst (hd v)) (fst (last v) + 1)) of
              Inr m \<Rightarrow> eventmax @ [m]
            | Inl e \<Rightarrow> eventmax))
      else crossing_loop x groups (eventlist, eventmax))"

definition crossing_events :: "real list \<Rightarrow> nat list \<Rightarrow> (nat \<times> nat) list \<times> real list" where
  "crossing_events x cross_threshold =
     crossing_loop x (groupby snd (List.enumerate 0 cross_threshold)) ([], [])"

text \<open>
  The mode is looked at first; then \<open>enumerate\<close> raises TypeError on an array of no
  dimension.
\<close>

definition find_threshold_crossing_events ::
  "samples \<Rightarrow> real \<Rightarrow> string \<Rightarrow> error + ((nat \<times> nat) list \<times> real list)" where
  "find_threshold_crossing_events x threshold mode =
     (if mode = ''below'' then
        (case x of
           Scalar v \<Rightarrow> Inl TypeError
         | Vector xs \<Rightarrow> Inr (crossing_events xs (where_below xs threshold)))
      else if mode = ''above'' then
        (case x of
           Scalar v \<Rightarrow> Inl TypeError
         | Vector xs \<Rightarrow> Inr (crossing_events xs (where_above xs threshold)))
      else Inl NotImplementedError)"

subsection \<open>get_events_boundaries\<close>

text \<open>
  \<^verbatim>\<open>np.mean\<close> and \<^verbatim>\<open>np.std\<close>, the default thresholds. On an empty array numpy gives
  \<open>nan\<close> where this mean is \<open>0\<close>; no sample is compared with it then.
\<close>

definition mean :: "real list \<Rightarrow> real" where
  "mean a = sum_list a / real (length a)"

definition std :: "real list \<Rightarrow> real" where
  "std a = sqrt (mean (map (\<lambda>v. (v - mean a) ^ 2) a))"

text \<open>\<^verbatim>\<open>(runs[:,1] - runs[:,0] + 1) * ds\<close>\<close>

definition durations :: "(nat \<times> nat) list \<Rightarrow> real \<Rightarrow> real list" where
  "durations runs ds = map (\<lambda>(start, stop). real_of_int (int stop - int start + 1) * ds) runs"

text \<open>
  \<^verbatim>\<open>np.searchsorted(a, v)\<close> with the default \<^verbatim>\<open>side='left'\<close>, on an ascending \<open>a\<close>: for
  each element of \<open>v\<close> the first index \<open>i\<close> with \<open>v \<le> a[i]\<close>, or the length of \<open>a\<close>.
\<close>

definition searchsorted :: "nat list \<Rightarrow> nat list \<Rightarrow> int list" where
  "searchsorted a v = map (\<lambda>u. int (length (takeWhile (\<lambda>w. w < u) a))) v"

text \<open>
  The indices returned by \<^verbatim>\<open>np.unique(a, return_index=True)\<close>: for each distinct value,
  in ascending order, the index of its first occurrence.
\<close>

definition first_index :: "nat list \<Rightarrow> nat \<Rightarrow> nat" where
  "first_index a v = length (takeWhile (\<lambda>w. w \<noteq> v) a)"

definition unique_index :: "nat list \<Rightarrow> int list" where
  "unique_index a = map (\<lambda>v. int (first_index a v)) (sort (remdups a))"

text \<open>
  Lines 610 to 618: the runs above (below) the primary threshold, and of them those
  that last at least \<open>minThresholdLength\<close>. A duration times \<open>ds = None\<close> is a TypeError.
\<close>

definition primary_events ::
  "samples \<Rightarrow> real \<Rightarrow> real option \<Rightarrow> real option \<Rightarrow> string \<Rightarrow> error + (nat \<times> nat) list" where
  "primary_events x PrimaryThreshold minThresholdLength ds mode =
     (case find_threshold_crossing_events x PrimaryThreshold mode of
        Inl e \<Rightarrow> Inl e
      | Inr (events, _) \<Rightarrow>
          (case minThresholdLength of
             None \<Rightarrow> Inr events
           | Some l \<Rightarrow>
               if length events > 0 then
                 (case ds of
                    None \<Rightarrow> Inl TypeError
                  | Some d \<Rightarrow> Inr (take_mask events (map (\<lambda>t. t \<ge> l) (durations events d))))
               else Inr events))"

text \<open>
  Lines 636 to 650: the runs above (below) the secondary threshold, and for each event
  the run at the index that \<open>searchsorted\<close> gives for its start, minus one. Taking the
  column \<^verbatim>\<open>bounds[:,0]\<close> of an empty result, of shape \<open>(0,)\<close>, is an IndexError.
\<close>

definition outer_windows ::
  "samples \<Rightarrow> real \<Rightarrow> string \<Rightarrow> (nat \<times> nat) list \<Rightarrow> error + ((nat \<times> nat) list \<times> real list)" where
  "outer_windows x SecondaryThreshold mode events =
     (case find_threshold_crossing_events x SecondaryThreshold mode of
        Inl e \<Rightarrow> Inl e
      | Inr (bounds, broader_maxes) \<Rightarrow>
          if bounds = [] then Inl IndexError
          else
            let outer_boundary_indices =
                  map (\<lambda>i. i - 1) (searchsorted (map fst bounds) (map fst events))
            in (case take_indices bounds outer_boundary_indices of
                  Inl e \<Rightarrow> Inl e
                | Inr bounds' \<Rightarrow>
                    (case take_indices broader_maxes outer_boundary_indices of
                       Inl e \<Rightarrow> Inl e
                     | Inr maxes \<Rightarrow> Inr (bounds', maxes))))"

text \<open>
  Lines 652 to 657 with \<open>rel = (\<ge>)\<close> and the limit \<open>minLength\<close>, lines 659 to 664 with
  \<open>rel = (\<le>)\<close> and the limit \<open>maxLength\<close>: the three arrays keep the rows where the duration
  of the window in \<open>bounds\<close> stands in \<open>rel\<close> to the limit.
\<close>

definition length_criterion ::
  "(real \<Rightarrow> real \<Rightarrow> bool) \<Rightarrow> real option \<Rightarrow> real option
     \<Rightarrow> (nat \<times> nat) list \<times> real list \<times> (nat \<times> nat) list
     \<Rightarrow> error + ((nat \<times> nat) list \<times> real list \<times> (nat \<times> nat) list)" where
  "length_criterion rel limit ds bme =
     (case bme of (bounds, maxes, events) \<Rightarrow>
        (case limit of
           None \<Rightarrow> Inr (bounds, maxes, events)
         | Some l \<Rightarrow>
             if length events > 0 then
               (case ds of
                  None \<Rightarrow> Inl TypeError
                | Some d \<Rightarrow>
                    let keep = map (\<lambda>t. rel t l) (durations bounds d)
                    in Inr (take_mask bounds keep, take_mask maxes keep, take_mask events keep))
             else Inr (bounds, maxes, events)))"

text \<open>Lines 671 to 677: one row for each distinct start of a window, the first that has it.\<close>

definition remove_repeats ::
  "(nat \<times> nat) list \<times> real list \<times> (nat \<times> nat) list
     \<Rightarrow> error + ((nat \<times> nat) list \<times> real list \<times> (nat \<times> nat) list)" where
  "remove_repeats bme =
     (case bme of (bounds, maxes, events) \<Rightarrow>
        let unique_idx = unique_index (map fst bounds)
        in (case take_indices bounds unique_idx of
              Inl e \<Rightarrow> Inl e
            | Inr bounds' \<Rightarrow>
                (case take_indices maxes unique_idx of
                   Inl e \<Rightarrow> Inl e
                 | Inr maxes' \<Rightarrow>
                     (case take_indices events unique_idx of
                        Inl e \<Rightarrow> Inl e
                      | Inr events' \<Rightarrow> Inr (bounds', maxes', events')))))"

text \<open>Lines 636 to 664: the windows of the events, with both length criteria applied.\<close>

definition event_windows ::
  "samples \<Rightarrow> real \<Rightarrow> real option \<Rightarrow> real option \<Rightarrow> real option \<Rightarrow> string
     \<Rightarrow> (nat \<times> nat) list
     \<Rightarrow> error + ((nat \<times> nat) list \<times> real list \<times> (nat \<times> nat) list)" where
  "event_windows x SecondaryThreshold minLength maxLength ds mode events =
     (case outer_windows x SecondaryThreshold mode events of
        Inl e \<Rightarrow> Inl e
      | Inr (bounds, maxes) \<Rightarrow>
          (case length_criterion (\<ge>) minLength ds (bounds, maxes, events) of
             Inl e \<Rightarrow> Inl e
           | Inr bme \<Rightarrow> length_criterion (\<le>) maxLength ds bme))"

text \<open>
  The thresholds a call works with: the ones given, or by default the mean plus three
  standard deviations and the mean of the squeezed input.
\<close>

definition primary_threshold :: "ndarray \<Rightarrow> real option \<Rightarrow> real" where
  "primary_threshold x PrimaryThreshold =
     (case PrimaryThreshold of
        None \<Rightarrow> mean (data (squeeze x)) + 3 * std (data (squeeze x))
      | Some p \<Rightarrow> p)"

definition secondary_threshold :: "ndarray \<Rightarrow> real option \<Rightarrow> real" where
  "secondary_threshold x SecondaryThreshold =
     (case SecondaryThreshold of None \<Rightarrow> mean (data (squeeze x)) | Some s \<Rightarrow> s)"

text \<open>
  The function returns \<open>bounds\<close>, \<open>maxes\<close> and \<open>events\<close>. Its arguments after \<open>x\<close> are
  optional in the source, \<open>None\<close> when left out; \<open>mode\<close> is a string.
\<close>

definition get_events_boundaries ::
  "ndarray \<Rightarrow> real option \<Rightarrow> real option \<Rightarrow> real option \<Rightarrow> real option \<Rightarrow> real option
     \<Rightarrow> real option \<Rightarrow> string
     \<Rightarrow> error + ((nat \<times> nat) list \<times> real list \<times> (nat \<times> nat) list)" where
  "get_events_boundaries x PrimaryThreshold SecondaryThreshold minThresholdLength minLength
      maxLength ds mode =
     (if ndim (squeeze x) > 1 then Inl TypeError
      else
        let P = primary_threshold x PrimaryThreshold;
            S = secondary_threshold x SecondaryThreshold
        in (case primary_events (as_samples (squeeze x)) P minThresholdLength ds mode of
              Inl e \<Rightarrow> Inl e
            | Inr events \<Rightarrow>
                if length events = 0 then Inr ([], [], [])
                else if mode = ''above'' \<and> \<not> S \<le> P then Inl AssertionError
                else if mode \<noteq> ''above'' \<and> mode = ''below'' \<and> \<not> S \<ge> P then Inl AssertionError
                else if mode \<noteq> ''above'' \<and> mode \<noteq> ''below'' then Inl NotImplementedError
                else
                  (case event_windows (as_samples (squeeze x)) S minLength maxLength ds mode events of
                     Inl e \<Rightarrow> Inl e
                   | Inr (bounds, maxes, events') \<Rightarrow>
                       if length events' = 0 then Inr ([], [], [])
                       else remove_repeats (bounds, maxes, events'))))"

subsection \<open>get_contiguous_segments\<close>

text \<open>\<^verbatim>\<open>np.diff(a)\<close>, that is \<^verbatim>\<open>a[1:] - a[:-1]\<close>.\<close>

definition diff :: "real list \<Rightarrow> real list" where
  "diff a = map (\<lambda>(u, v). v - u) (zip (butlast a) (tl a))"

text \<open>
  \<^verbatim>\<open>np.median(a)\<close>: the middle element of the sorted array, or the mean of the two
  middle ones; \<open>nan\<close>, here \<open>None\<close>, for an empty array.
\<close>

definition median :: "real list \<Rightarrow> real option" where
  "median a =
     (if a = [] then None
      else
        let s = sort a; n = length a
        in Some (if even n then (s ! (n div 2 - 1) + s ! (n div 2)) / 2 else s ! (n div 2)))"

text \<open>\<^verbatim>\<open>np.argwhere\<close> of a boolean array (flattened by \<open>insert\<close> and \<open>append\<close>): the indices where it is true.\<close>

definition argwhere :: "bool list \<Rightarrow> nat list" where
  "argwhere bs = filter (\<lambda>i. bs ! i) [0..<length bs]"

text \<open>
  \<open>step = None\<close> is the step left out. In memory the step is then the median of the
  differences, and a comparison with \<open>nan\<close> is false. Out of core the step only feeds a
  warning, and the groups are the stretches where index minus value is constant.
\<close>

definition get_contiguous_segments ::
  "real list \<Rightarrow> real option \<Rightarrow> bool \<Rightarrow> bool \<Rightarrow> error + (real \<times> real) list" where
  "get_contiguous_segments data_in step sort_first in_memory =
     (if in_memory then
        let step' = (case step of None \<Rightarrow> median (diff data_in) | Some s \<Rightarrow> Some s);
            breaks = argwhere (map (\<lambda>d. case step' of None \<Rightarrow> False | Some s \<Rightarrow> d \<ge> 2 * s)
                                   (diff data_in));
            starts = 0 # map (\<lambda>b. int b + 1) breaks;
            stops = map int breaks @ [int (length data_in) - 1]
        in (case take_indices data_in starts of
              Inl e \<Rightarrow> Inl e
            | Inr firsts \<Rightarrow>
                (case take_indices data_in stops of
                   Inl e \<Rightarrow> Inl e
                 | Inr lasts \<Rightarrow> Inr (zip firsts lasts)))
      else
        let sorted_data = (if sort_first then sort data_in else data_in)
        in Inr (map (\<lambda>(k, g). (snd (hd g), snd (last g)))
                  (groupby (\<lambda>(i, v). real i - v) (List.enumerate 0 sorted_data))))"

subsection \<open>Auxiliary definitions for the proofs\<close>

text \<open>
  The predicate of a mode on a sample: strictly below the threshold in mode below,
  strictly above it in mode above.
\<close>

definition crosses :: "string \<Rightarrow> real \<Rightarrow> real \<Rightarrow> bool" where
  "crosses mode threshold v = (if mode = ''below'' then v < threshold else v > threshold)"

text \<open>
  The duration of a run or window with inclusive indices, \<open>(stop - start + 1) * ds\<close>, and
  a duration between an optional lower and an optional upper limit.
\<close>

definition duration :: "nat \<times> nat \<Rightarrow> real \<Rightarrow> real" where
  "duration r ds = (real (snd r) - real (fst r) + 1) * ds"

definition in_limits :: "real option \<Rightarrow> real option \<Rightarrow> real \<Rightarrow> bool" where
  "in_limits lo hi t =
     ((case lo of None \<Rightarrow> True | Some a \<Rightarrow> a \<le> t) \<and> (case hi of None \<Rightarrow> True | Some b \<Rightarrow> t \<le> b))"

text \<open>
  A break after position \<open>i\<close>: the next position is at least two steps further. The
  step is \<open>None\<close> when it is \<open>nan\<close>, and nothing is at least \<open>nan\<close>.
\<close>

definition break_at :: "real list \<Rightarrow> real option \<Rightarrow> nat \<Rightarrow> bool" where
  "break_at positions step i =
     (case step of None \<Rightarrow> False | Some s \<Rightarrow> positions ! (i + 1) - positions ! i \<ge> 2 * s)"

text \<open>
  The runs of non-zero entries of a list whose first entry has index \<open>n\<close>: what the loop
  of \<open>find_threshold_crossing_events\<close> is shown to collect from the groups.
\<close>

function runs_from :: "nat \<Rightarrow> nat list \<Rightarrow> (nat \<times> nat) list" where
  "runs_from n [] = []"
| "runs_from n (c # cs) =
     (if c \<noteq> 0 then [(n, n + length (takeWhile (\<lambda>b. b = c) cs))] else [])
       @ runs_from (Suc (n + length (takeWhile (\<lambda>b. b = c) cs))) (dropWhile (\<lambda>b. b = c) cs)"
  by pat_completeness auto
termination
  by (relation "measure (\<lambda>(n, cs). length cs)")
     (auto simp: length_dropWhile_le le_imp_less_Suc)

section \<open>Evaluation on concrete inputs\<close>

lemmas crossing_eval =
  find_threshold_crossing_events_def crossing_events_def where_above_def where_below_def
  enumerate_eq_zip upt_rec slice_def amax_def

lemmas boundaries_eval =
  get_events_boundaries_def squeeze_def ndim_def array_def as_samples_def
  primary_threshold_def secondary_threshold_def primary_events_def event_windows_def
  outer_windows_def length_criterion_def remove_repeats_def searchsorted_def
  unique_index_def first_index_def getitem_def take_mask_def durations_def crossing_eval

lemmas segments_eval =
  get_contiguous_segments_def diff_def median_def argwhere_def getitem_def upt_rec
  enumerate_eq_zip

section \<open>The window of a primary run\<close>

text \<open>
  C1, at \<open>x = [5,0,2,0]\<close> with the primary threshold 4 and the secondary threshold 1,
  mode above. The only primary run is \<open>(0,0)\<close>; the secondary runs are \<open>(0,0)\<close> and
  \<open>(2,2)\<close>. The run \<open>(0,0)\<close> starts where the primary run starts, \<open>searchsorted\<close> gives
  its index 0, and the index minus one, \<open>-1\<close>, selects the last secondary run: the
  function returns the window \<open>(2,2)\<close> with peak 2, which does not contain the primary
  run and does not reach the primary threshold.
\<close>

theorem window_misses_primary_run:
  "get_events_boundaries (array [5, 0, 2, 0]) (Some 4) (Some 1) None None None None ''above''
     = Inr ([(2, 2)], [2], [(0, 0)])"
  by (simp add: boundaries_eval)

text \<open>
  C2, at the input of the scenario: \<open>x = [0,2,5,2,0,0,5,0]\<close>, mode above, primary
  threshold 4, secondary threshold 1, no duration given. The primary run \<open>(6,6)\<close> starts
  where the secondary run \<open>(6,6)\<close> starts, so it is given the secondary run before it,
  \<open>(1,3)\<close>, as the primary run \<open>(2,2)\<close> is; after the repeats are removed one window is
  returned, not two.
\<close>

theorem scenario_returns_one_window:
  "get_events_boundaries (array [0, 2, 5, 2, 0, 0, 5, 0]) (Some 4) (Some 1) None None None None
       ''above''
     = Inr ([(1, 3)], [5], [(2, 2)])"
  by (simp add: boundaries_eval)

section \<open>Empty input\<close>

text \<open>
  C7, at the empty sequence of positions: in memory (the default) the function indexes
  the empty array with \<open>starts = [0]\<close> and raises IndexError, whatever the step.
\<close>

theorem get_contiguous_segments_empty_in_memory:
  "get_contiguous_segments [] step sort_first True = Inl IndexError"
  by (cases step) (simp_all add: segments_eval)

text \<open>
  C8, on the empty input: \<open>find_threshold_crossing_events\<close> returns no run and no peak
  in both modes, \<open>get_events_boundaries\<close> returns three empty sequences in both modes,
  and \<open>get_contiguous_segments\<close> returns no segment out of core but raises IndexError
  in memory, which is its default.
\<close>

theorem empty_input_results:
  "find_threshold_crossing_events (Vector []) threshold ''above'' = Inr ([], []) \<and>
   find_threshold_crossing_events (Vector []) threshold ''below'' = Inr ([], []) \<and>
   get_events_boundaries (array []) P S minThresholdLength minLength maxLength ds ''above''
     = Inr ([], [], []) \<and>
   get_events_boundaries (array []) P S minThresholdLength minLength maxLength ds ''below''
     = Inr ([], [], []) \<and>
   get_contiguous_segments [] None False False = Inr [] \<and>
   get_contiguous_segments [] None False True = Inl IndexError"
  by (cases minThresholdLength) (simp_all add: boundaries_eval segments_eval)

section \<open>The runs found by find_threshold_crossing_events\<close>

lemma takeWhile_enumerate:
  "takeWhile (\<lambda>b. snd b = c) (List.enumerate m cs) = List.enumerate m (takeWhile (\<lambda>b. b = c) cs)"
  by (induction cs arbitrary: m) auto

lemma dropWhile_enumerate:
  "dropWhile (\<lambda>b. snd b = c) (List.enumerate m cs)
     = List.enumerate (m + length (takeWhile (\<lambda>b. b = c) cs)) (dropWhile (\<lambda>b. b = c) cs)"
  by (induction cs arbitrary: m) auto

lemma crossing_loop_append:
  "crossing_loop x groups (eventlist, eventmax)
     = (eventlist @ fst (crossing_loop x groups ([], [])),
        eventmax @ snd (crossing_loop x groups ([], [])))"
proof (induction groups arbitrary: eventlist eventmax)
  case Nil
  then show ?case by simp
next
  case (Cons g groups)
  obtain k v where g: "g = (k, v)" by (cases g)
  show ?case
  proof (cases "k = 0")
    case True
    with g Cons.IH [of eventlist eventmax] show ?thesis by simp
  next
    case False
    let ?r = "(fst (hd v), fst (last v))"
    let ?m = "(case amax (slice x (fst (hd v)) (fst (last v) + 1)) of
                 Inr m \<Rightarrow> [m] | Inl e \<Rightarrow> [])"
    have step: "crossing_loop x (g # groups) (el, em)
                  = crossing_loop x groups (el @ [?r], em @ ?m)" for el em
      using False g by (simp split: sum.splits)
    show ?thesis
      unfolding step
      by (subst Cons.IH, subst (2 3) Cons.IH) simp
  qed
qed


lemma amax_nonempty:
  assumes "xs \<noteq> []"
  shows "amax xs = Inr (Max (set xs))"
proof (cases xs)
  case Nil
  with assms show ?thesis by simp
next
  case (Cons v vs)
  have "fold max vs v = Max (set (v # vs))"
    by (rule Max.set_eq_fold [symmetric])
  with Cons show ?thesis by (simp add: amax_def)
qed

lemma fst_last_enumerate:
  "fst (last ((n, c) # List.enumerate (Suc n) t)) = n + length t"
proof -
  have "fst (last ((n, c) # List.enumerate (Suc n) t))
          = last (map fst ((n, c) # List.enumerate (Suc n) t))"
    by (rule last_map [symmetric]) simp
  also have "map fst ((n, c) # List.enumerate (Suc n) t) = [n..<Suc (n + length t)]"
    by (simp only: list.simps fst_conv map_fst_enumerate add_Suc upt_conv_Cons [of n "Suc (n + length t)"] less_Suc_eq_le le_add1 if_True)
  also have "last [n..<Suc (n + length t)] = n + length t"
    by (simp del: upt_Suc add: last_upt)
  finally show ?thesis .
qed

lemma groupby_enumerate_Cons:
  "groupby snd (List.enumerate n (c # cs))
     = (c, (n, c) # List.enumerate (Suc n) (takeWhile (\<lambda>b. b = c) cs))
         # groupby snd (List.enumerate (Suc (n + length (takeWhile (\<lambda>b. b = c) cs)))
                         (dropWhile (\<lambda>b. b = c) cs))"
  by (simp add: takeWhile_enumerate dropWhile_enumerate)

lemma length_takeWhile_dropWhile:
  "length (takeWhile P xs) + length (dropWhile P xs) = length xs"
  by (metis length_append takeWhile_dropWhile_id)

lemma crossing_loop_groupby:
  "n + length cs \<le> length x \<Longrightarrow>
     crossing_loop x (groupby snd (List.enumerate n cs)) ([], [])
       = (runs_from n cs, map (\<lambda>(s, e). Max (set (slice x s (e + 1)))) (runs_from n cs))"
proof (induction n cs rule: runs_from.induct)
  case (1 n)
  then show ?case by simp
next
  case (2 n c cs)
  let ?t = "takeWhile (\<lambda>b. b = c) cs"
  let ?d = "dropWhile (\<lambda>b. b = c) cs"
  let ?n' = "Suc (n + length ?t)"
  have len: "?n' + length ?d \<le> length x"
    using "2.prems" length_takeWhile_dropWhile [of "\<lambda>b. b = c" cs] by simp
  note IH = "2.IH" [OF len]
  show ?case
  proof (cases "c = 0")
    case True
    then show ?thesis
      unfolding groupby_enumerate_Cons using IH by simp
  next
    case False
    have ne: "slice x n (Suc (n + length ?t)) \<noteq> []"
      using "2.prems" by (simp add: slice_def)
    show ?thesis
      unfolding groupby_enumerate_Cons
      using False IH
      by (simp add: fst_last_enumerate amax_nonempty [OF ne]
            crossing_loop_append [of x _ "[_]" "[_]"] del: last.simps)
  qed
qed

lemma crossing_events_runs:
  "length cs = length x \<Longrightarrow>
     crossing_events x cs
       = (runs_from 0 cs, map (\<lambda>(s, e). Max (set (slice x s (e + 1)))) (runs_from 0 cs))"
  by (simp add: crossing_events_def crossing_loop_groupby)

lemma nth_group:
  assumes "j \<le> length (takeWhile (\<lambda>b. b = c) cs)"
  shows "(c # cs) ! j = c"
proof (cases j)
  case 0
  then show ?thesis by simp
next
  case (Suc k)
  with assms have k: "k < length (takeWhile (\<lambda>b. b = c) cs)" by simp
  then have "cs ! k = takeWhile (\<lambda>b. b = c) cs ! k"
    by (rule takeWhile_nth [symmetric])
  moreover have "takeWhile (\<lambda>b. b = c) cs ! k \<in> set (takeWhile (\<lambda>b. b = c) cs)"
    using k by (rule nth_mem)
  ultimately show ?thesis
    using Suc by (auto dest: set_takeWhileD)
qed

lemma nth_rest:
  "(c # cs) ! (Suc (length (takeWhile P cs)) + k) = dropWhile P cs ! k"
proof -
  have "cs ! (length (takeWhile P cs) + k) = (takeWhile P cs @ dropWhile P cs) ! (length (takeWhile P cs) + k)"
    by simp
  also have "\<dots> = dropWhile P cs ! k"
    by (rule nth_append_length_plus)
  finally show ?thesis by simp
qed

lemma runs_from_Cons_cases:
  assumes "(s, e) \<in> set (runs_from n (c # cs))"
  shows "(c \<noteq> 0 \<and> s = n \<and> e = n + length (takeWhile (\<lambda>b. b = c) cs))
         \<or> (s, e) \<in> set (runs_from (Suc (n + length (takeWhile (\<lambda>b. b = c) cs)))
                              (dropWhile (\<lambda>b. b = c) cs))"
  using assms by (auto split: if_splits)

lemma runs_from_range:
  "(s, e) \<in> set (runs_from n cs) \<Longrightarrow> n \<le> s \<and> s \<le> e \<and> e < n + length cs"
proof (induction n cs rule: runs_from.induct)
  case (1 n)
  then show ?case by simp
next
  case (2 n c cs)
  from runs_from_Cons_cases [OF "2.prems"] show ?case
  proof
    assume "c \<noteq> 0 \<and> s = n \<and> e = n + length (takeWhile (\<lambda>b. b = c) cs)"
    then show ?thesis
      using length_takeWhile_le [of "\<lambda>b. b = c" cs] by simp
  next
    assume "(s, e) \<in> set (runs_from (Suc (n + length (takeWhile (\<lambda>b. b = c) cs)))
                            (dropWhile (\<lambda>b. b = c) cs))"
    from "2.IH" [OF this] show ?thesis
      using length_takeWhile_dropWhile [of "\<lambda>b. b = c" cs] by simp
  qed
qed

lemma runs_from_inside:
  "(s, e) \<in> set (runs_from n cs) \<Longrightarrow> s \<le> i \<Longrightarrow> i \<le> e \<Longrightarrow> cs ! (i - n) \<noteq> 0"
proof (induction n cs rule: runs_from.induct)
  case (1 n)
  then show ?case by simp
next
  case (2 n c cs)
  let ?t = "takeWhile (\<lambda>b. b = c) cs"
  let ?d = "dropWhile (\<lambda>b. b = c) cs"
  from runs_from_Cons_cases [OF "2.prems"(1)] show ?case
  proof
    assume a: "c \<noteq> 0 \<and> s = n \<and> e = n + length ?t"
    with "2.prems" have "i - n \<le> length ?t" by simp
    from nth_group [OF this] a show ?thesis by simp
  next
    assume a: "(s, e) \<in> set (runs_from (Suc (n + length ?t)) ?d)"
    from runs_from_range [OF a] "2.prems" have "Suc (n + length ?t) \<le> i" by simp
    then have "i - n = Suc (length ?t) + (i - Suc (n + length ?t))" by simp
    then have "(c # cs) ! (i - n) = ?d ! (i - Suc (n + length ?t))"
      by (simp only: nth_rest)
    with "2.IH" [OF a "2.prems"(2,3)] show ?thesis by simp
  qed
qed

lemma runs_from_before:
  "(s, e) \<in> set (runs_from n cs) \<Longrightarrow> \<forall>b\<in>set cs. b \<le> 1 \<Longrightarrow> n < s \<Longrightarrow> cs ! (s - 1 - n) = 0"
proof (induction n cs rule: runs_from.induct)
  case (1 n)
  then show ?case by simp
next
  case (2 n c cs)
  let ?t = "takeWhile (\<lambda>b. b = c) cs"
  let ?d = "dropWhile (\<lambda>b. b = c) cs"
  let ?n' = "Suc (n + length ?t)"
  from runs_from_Cons_cases [OF "2.prems"(1)] show ?case
  proof
    assume "c \<noteq> 0 \<and> s = n \<and> e = n + length ?t"
    with "2.prems" show ?thesis by simp
  next
    assume a: "(s, e) \<in> set (runs_from ?n' ?d)"
    have bits: "\<forall>b\<in>set ?d. b \<le> 1"
      using "2.prems"(2) by (auto dest: set_dropWhileD)
    from runs_from_range [OF a] have r: "?n' \<le> s" "s \<le> e" "e < ?n' + length ?d" by simp_all
    show ?thesis
    proof (cases "?n' < s")
      case True
      then have "s - 1 - n = Suc (length ?t) + (s - 1 - ?n')" by simp
      then have "(c # cs) ! (s - 1 - n) = ?d ! (s - 1 - ?n')"
        by (simp only: nth_rest)
      with "2.IH" [OF a bits True] show ?thesis by simp
    next
      case False
      with r have s: "s = ?n'" by simp
      from r have "length ?d \<noteq> 0" by arith
      then have ne: "?d \<noteq> []" by (metis list.size(3))
      then have "hd ?d \<noteq> c" using hd_dropWhile [of "\<lambda>b. b = c" cs] by simp
      moreover have "?d ! (s - ?n') \<noteq> 0"
        using runs_from_inside [OF a, of s] r by simp
      then have "hd ?d \<noteq> 0" using s ne by (simp add: hd_conv_nth)
      moreover have "hd ?d \<le> 1" using bits ne by simp
      moreover have "c \<le> 1" using "2.prems"(2) by simp
      ultimately have "c = 0" by simp
      moreover have "(c # cs) ! (s - 1 - n) = c"
        using s by (simp add: nth_group)
      ultimately show ?thesis by simp
    qed
  qed
qed

lemma runs_from_after:
  "(s, e) \<in> set (runs_from n cs) \<Longrightarrow> \<forall>b\<in>set cs. b \<le> 1 \<Longrightarrow> e + 1 < n + length cs
     \<Longrightarrow> cs ! (e + 1 - n) = 0"
proof (induction n cs rule: runs_from.induct)
  case (1 n)
  then show ?case by simp
next
  case (2 n c cs)
  let ?t = "takeWhile (\<lambda>b. b = c) cs"
  let ?d = "dropWhile (\<lambda>b. b = c) cs"
  let ?n' = "Suc (n + length ?t)"
  have bits: "\<forall>b\<in>set ?d. b \<le> 1"
    using "2.prems"(2) by (auto dest: set_dropWhileD)
  have len: "length (c # cs) = Suc (length ?t) + length ?d"
    using length_takeWhile_dropWhile [of "\<lambda>b. b = c" cs] by simp
  from runs_from_Cons_cases [OF "2.prems"(1)] show ?case
  proof
    assume a: "c \<noteq> 0 \<and> s = n \<and> e = n + length ?t"
    with "2.prems"(3) len have "length ?d \<noteq> 0" by arith
    then have ne: "?d \<noteq> []" by (metis list.size(3))
    then have "hd ?d \<noteq> c" using hd_dropWhile [of "\<lambda>b. b = c" cs] by simp
    moreover have "hd ?d \<le> 1" using bits ne by simp
    moreover have "c \<le> 1" using "2.prems"(2) by simp
    ultimately have "hd ?d = 0" using a by simp
    moreover have "e + 1 - n = Suc (length ?t) + 0" using a by simp
    then have "(c # cs) ! (e + 1 - n) = ?d ! 0" by (simp only: nth_rest)
    ultimately show ?thesis using ne by (simp add: hd_conv_nth)
  next
    assume a: "(s, e) \<in> set (runs_from ?n' ?d)"
    from runs_from_range [OF a] have r: "?n' \<le> s" "s \<le> e" by simp_all
    have "e + 1 < ?n' + length ?d" using "2.prems"(3) len by simp
    from "2.IH" [OF a bits this] have "?d ! (e + 1 - ?n') = 0" .
    moreover have "e + 1 - n = Suc (length ?t) + (e + 1 - ?n')" using r by simp
    then have "(c # cs) ! (e + 1 - n) = ?d ! (e + 1 - ?n')" by (simp only: nth_rest)
    ultimately show ?thesis by simp
  qed
qed

lemma runs_from_sorted:
  "sorted_wrt (\<lambda>r r'. snd r < fst r') (runs_from n cs)"
proof (induction n cs rule: runs_from.induct)
  case (1 n)
  then show ?case by simp
next
  case (2 n c cs)
  then show ?case
    by (auto dest!: runs_from_range)
qed

lemma runs_from_covers:
  "i < length cs \<Longrightarrow> cs ! i \<noteq> 0 \<Longrightarrow> \<exists>(s, e)\<in>set (runs_from n cs). s \<le> n + i \<and> n + i \<le> e"
proof (induction n cs arbitrary: i rule: runs_from.induct)
  case (1 n)
  then show ?case by simp
next
  case (2 n c cs)
  let ?t = "takeWhile (\<lambda>b. b = c) cs"
  let ?d = "dropWhile (\<lambda>b. b = c) cs"
  let ?n' = "Suc (n + length ?t)"
  have len: "length (c # cs) = Suc (length ?t) + length ?d"
    using length_takeWhile_dropWhile [of "\<lambda>b. b = c" cs] by simp
  show ?case
  proof (cases "i \<le> length ?t")
    case True
    from nth_group [OF this] "2.prems" have "c \<noteq> 0" by simp
    with True show ?thesis by simp
  next
    case False
    then have i: "i = Suc (length ?t) + (i - Suc (length ?t))" by simp
    then have "(c # cs) ! i = ?d ! (i - Suc (length ?t))"
      by (metis nth_rest)
    with "2.prems" have "?d ! (i - Suc (length ?t)) \<noteq> 0" by simp
    moreover have "i - Suc (length ?t) < length ?d" using "2.prems"(1) len False by simp
    ultimately have "\<exists>(s, e)\<in>set (runs_from ?n' ?d).
        s \<le> ?n' + (i - Suc (length ?t)) \<and> ?n' + (i - Suc (length ?t)) \<le> e"
      by (rule "2.IH" [rotated])
    moreover have "?n' + (i - Suc (length ?t)) = n + i" using False by simp
    ultimately show ?thesis by auto
  qed
qed


lemma where_above_bits:
  "length (where_above x t) = length x" "\<forall>b\<in>set (where_above x t). b \<le> 1"
  "i < length x \<Longrightarrow> where_above x t ! i \<noteq> 0 \<longleftrightarrow> crosses ''above'' t (x ! i)"
  by (auto simp: where_above_def crosses_def)

lemma where_below_bits:
  "length (where_below x t) = length x" "\<forall>b\<in>set (where_below x t). b \<le> 1"
  "i < length x \<Longrightarrow> where_below x t ! i \<noteq> 0 \<longleftrightarrow> crosses ''below'' t (x ! i)"
  by (auto simp: where_below_def crosses_def)

text \<open>The properties of the runs of any list of zeros and ones that marks the samples of a mode.\<close>

lemma marked_runs_exact:
  assumes len: "length cs = length x"
    and bits: "\<forall>b\<in>set cs. b \<le> 1"
    and mark: "\<And>i. i < length x \<Longrightarrow> cs ! i \<noteq> 0 \<longleftrightarrow> crosses mode t (x ! i)"
  shows "(\<forall>(s, e)\<in>set (runs_from 0 cs). s \<le> e \<and> e < length x
            \<and> (\<forall>i. s \<le> i \<and> i \<le> e \<longrightarrow> crosses mode t (x ! i))
            \<and> (0 < s \<longrightarrow> \<not> crosses mode t (x ! (s - 1)))
            \<and> (e + 1 < length x \<longrightarrow> \<not> crosses mode t (x ! (e + 1))))"
    and "\<forall>i<length x. crosses mode t (x ! i) \<longrightarrow> (\<exists>(s, e)\<in>set (runs_from 0 cs). s \<le> i \<and> i \<le> e)"
proof -
  show "\<forall>(s, e)\<in>set (runs_from 0 cs). s \<le> e \<and> e < length x
            \<and> (\<forall>i. s \<le> i \<and> i \<le> e \<longrightarrow> crosses mode t (x ! i))
            \<and> (0 < s \<longrightarrow> \<not> crosses mode t (x ! (s - 1)))
            \<and> (e + 1 < length x \<longrightarrow> \<not> crosses mode t (x ! (e + 1)))"
  proof (clarify, intro conjI allI impI)
    fix s e
    assume r: "(s, e) \<in> set (runs_from 0 cs)"
    from runs_from_range [OF r] len show se: "s \<le> e" and e: "e < length x" by simp_all
    show "crosses mode t (x ! i)" if "s \<le> i \<and> i \<le> e" for i
      using runs_from_inside [OF r, of i] that e mark [of i] by simp
    show "\<not> crosses mode t (x ! (s - 1))" if "0 < s"
      using runs_from_before [OF r bits that] se e mark [of "s - 1"] by simp
    show "\<not> crosses mode t (x ! (e + 1))" if "e + 1 < length x"
      using runs_from_after [OF r bits] that len mark [of "e + 1"] by simp
  qed
  show "\<forall>i<length x. crosses mode t (x ! i) \<longrightarrow> (\<exists>(s, e)\<in>set (runs_from 0 cs). s \<le> i \<and> i \<le> e)"
    using runs_from_covers [of _ cs 0] mark len by simp
qed

lemma find_threshold_crossing_events_runs:
  "find_threshold_crossing_events (Vector x) t ''above''
     = Inr (runs_from 0 (where_above x t),
            map (\<lambda>(s, e). Max (set (slice x s (e + 1)))) (runs_from 0 (where_above x t)))"
  "find_threshold_crossing_events (Vector x) t ''below''
     = Inr (runs_from 0 (where_below x t),
            map (\<lambda>(s, e). Max (set (slice x s (e + 1)))) (runs_from 0 (where_below x t)))"
  by (simp_all add: find_threshold_crossing_events_def crossing_events_runs where_above_bits
        where_below_bits)

text \<open>
  C4. In mode above and in mode below the function returns, and of what it returns:
  each run \<open>(s, e)\<close> lies inside the sequence; every sample of the run satisfies the
  strict predicate of the mode; the sample before the run and the sample after it, when
  there is one, do not; each run ends before the next one starts, so the runs do not
  overlap and their starts increase strictly. Moreover every sample that satisfies the
  predicate lies in a run.
\<close>

theorem crossing_runs_exact:
  assumes "mode = ''above'' \<or> mode = ''below''"
  shows "\<exists>runs peaks.
           find_threshold_crossing_events (Vector x) threshold mode = Inr (runs, peaks)
           \<and> (\<forall>(s, e)\<in>set runs. s \<le> e \<and> e < length x
                 \<and> (\<forall>i. s \<le> i \<and> i \<le> e \<longrightarrow> crosses mode threshold (x ! i))
                 \<and> (0 < s \<longrightarrow> \<not> crosses mode threshold (x ! (s - 1)))
                 \<and> (e + 1 < length x \<longrightarrow> \<not> crosses mode threshold (x ! (e + 1))))
           \<and> sorted_wrt (\<lambda>r r'. snd r < fst r') runs
           \<and> (\<forall>i<length x. crosses mode threshold (x ! i)
                 \<longrightarrow> (\<exists>(s, e)\<in>set runs. s \<le> i \<and> i \<le> e))"
  using assms
proof
  assume m: "mode = ''above''"
  show ?thesis
    unfolding m find_threshold_crossing_events_runs
    using marked_runs_exact
        [OF where_above_bits(1) where_above_bits(2) where_above_bits(3)]
      runs_from_sorted [of 0 "where_above x threshold"]
    by simp
next
  assume m: "mode = ''below''"
  show ?thesis
    unfolding m find_threshold_crossing_events_runs
    using marked_runs_exact
        [OF where_below_bits(1) where_below_bits(2) where_below_bits(3)]
      runs_from_sorted [of 0 "where_below x threshold"]
    by simp
qed

text \<open>
  C4 at \<open>x = [0,2,5,2,0,0,5,0]\<close> with the threshold 1, mode above.
\<close>

theorem crossing_runs_exact_witness:
  "(''above'' = ''above'' \<or> ''above'' = ''below'')
   \<and> (\<exists>runs peaks.
         find_threshold_crossing_events (Vector [0, 2, 5, 2, 0, 0, 5, 0]) 1 ''above''
           = Inr (runs, peaks)
         \<and> (\<forall>(s, e)\<in>set runs. s \<le> e \<and> e < length [0, 2, 5, 2, 0, 0, 5, 0 :: real]
               \<and> (\<forall>i. s \<le> i \<and> i \<le> e \<longrightarrow> crosses ''above'' 1 ([0, 2, 5, 2, 0, 0, 5, 0] ! i))
               \<and> (0 < s \<longrightarrow> \<not> crosses ''above'' 1 ([0, 2, 5, 2, 0, 0, 5, 0] ! (s - 1)))
               \<and> (e + 1 < length [0, 2, 5, 2, 0, 0, 5, 0 :: real]
                    \<longrightarrow> \<not> crosses ''above'' 1 ([0, 2, 5, 2, 0, 0, 5, 0] ! (e + 1))))
         \<and> sorted_wrt (\<lambda>r r'. snd r < fst r') runs
         \<and> (\<forall>i<length [0, 2, 5, 2, 0, 0, 5, 0 :: real].
               crosses ''above'' 1 ([0, 2, 5, 2, 0, 0, 5, 0] ! i)
               \<longrightarrow> (\<exists>(s, e)\<in>set runs. s \<le> i \<and> i \<le> e)))"
proof -
  have m: "''above'' = ''above'' \<or> ''above'' = ''below''" by simp
  from m crossing_runs_exact [OF m, of "[0, 2, 5, 2, 0, 0, 5, 0]" 1] show ?thesis
    by (rule conjI)
qed

section \<open>The peak of a run\<close>

lemma set_slice:
  assumes "e < length x"
  shows "set (slice x s (Suc e)) = (!) x ` {s..e}"
proof -
  have "slice x s (Suc e) = map ((!) x) [s..<Suc e]"
    using assms by (intro nth_equalityI) (auto simp: slice_def simp del: upt_Suc)
  then show ?thesis
    by (simp only: set_map set_upt atLeastLessThanSuc_atLeastAtMost)
qed

text \<open>
  C6. In mode above and in mode below there is one peak for each run, and the peak of a
  run is the greatest sample over the indices from the start of the run to its stop,
  both included: in mode below too it is the maximum, not the minimum.
\<close>

theorem peak_is_maximum:
  assumes "mode = ''above'' \<or> mode = ''below''"
    and "find_threshold_crossing_events (Vector x) threshold mode = Inr (runs, peaks)"
  shows "length peaks = length runs
         \<and> (\<forall>k<length runs. peaks ! k = Max ((!) x ` {fst (runs ! k)..snd (runs ! k)}))"
proof -
  obtain cs where cs: "length cs = length x" "runs = runs_from 0 cs"
    "peaks = map (\<lambda>(s, e). Max (set (slice x s (e + 1)))) runs"
    using assms find_threshold_crossing_events_runs [of x threshold]
      where_above_bits(1) [of x threshold] where_below_bits(1) [of x threshold]
    by auto
  have "peaks ! k = Max ((!) x ` {fst (runs ! k)..snd (runs ! k)})" if k: "k < length runs" for k
  proof -
    obtain s e where se: "runs ! k = (s, e)" by (cases "runs ! k")
    with k have "(s, e) \<in> set (runs_from 0 cs)"
      using cs(2) nth_mem [of k runs] by simp
    from runs_from_range [OF this] cs(1) have "e < length x" by simp
    from set_slice [OF this] se k cs(3) show ?thesis by simp
  qed
  with cs(3) show ?thesis by simp
qed

text \<open>
  C6 at \<open>x = [3,1,2,3]\<close> with the threshold 3, mode below: the run is \<open>(1,2)\<close> and its
  peak is 2, the greater of the samples 1 and 2.
\<close>

theorem peak_is_maximum_witness:
  "(''below'' = ''above'' \<or> ''below'' = ''below'')
   \<and> find_threshold_crossing_events (Vector [3, 1, 2, 3]) 3 ''below'' = Inr ([(1, 2)], [2])
   \<and> length [2 :: real] = length [(1 :: nat, 2 :: nat)]
   \<and> (0 :: nat) < length [(1 :: nat, 2 :: nat)]
   \<and> [2 :: real] ! 0
       = Max ((!) [3, 1, 2, 3] ` {fst ([(1 :: nat, 2 :: nat)] ! 0)..snd ([(1 :: nat, 2 :: nat)] ! 0)})"
proof -
  have m: "''below'' = ''above'' \<or> ''below'' = ''below''" by simp
  have h: "find_threshold_crossing_events (Vector [3, 1, 2, 3]) 3 ''below'' = Inr ([(1, 2)], [2])"
    by (simp add: crossing_eval)
  have k: "(0 :: nat) < length [(1 :: nat, 2 :: nat)]" by simp
  note p = peak_is_maximum [OF m h]
  from m h p [THEN conjunct1] k p [THEN conjunct2, rule_format, OF k] show ?thesis
    by (intro conjI)
qed

section \<open>What get_events_boundaries returns and raises\<close>

lemma take_indices_length:
  "take_indices xs idx = Inr vs \<Longrightarrow> length vs = length idx"
  by (induction idx arbitrary: vs) (auto split: sum.splits)

lemma remove_repeats_lengths:
  "remove_repeats bme = Inr (bounds, maxes, events) \<Longrightarrow>
     length bounds = length maxes \<and> length maxes = length events"
  by (auto simp: remove_repeats_def Let_def split: prod.splits sum.splits
           dest!: take_indices_length)

text \<open>
  C10. Whenever the function returns, the three sequences \<open>bounds\<close>, \<open>maxes\<close> and
  \<open>events\<close> have the same length; the two early returns give three empty sequences.
\<close>

theorem returned_sequences_same_length:
  "get_events_boundaries x P S minThresholdLength minLength maxLength ds mode
       = Inr (bounds, maxes, events)
   \<Longrightarrow> length bounds = length maxes \<and> length maxes = length events"
  unfolding get_events_boundaries_def Let_def
  by (auto split: if_splits sum.splits prod.splits dest: remove_repeats_lengths)

theorem returned_sequences_same_length_witness:
  "get_events_boundaries (array [0, 2, 5, 2, 0, 0, 5, 0]) (Some 4) (Some 1) None (Some 3) None
       (Some 1) ''above'' = Inr ([(1, 3)], [5], [(2, 2)])
   \<and> length [(1::nat, 3::nat)] = length [5::real]
   \<and> length [5::real] = length [(2::nat, 2::nat)]"
proof -
  have h: "get_events_boundaries (array [0, 2, 5, 2, 0, 0, 5, 0]) (Some 4) (Some 1) None (Some 3)
             None (Some 1) ''above'' = Inr ([(1, 3)], [5], [(2, 2)])"
    by (simp add: boundaries_eval)
  from h returned_sequences_same_length [OF h] show ?thesis
    by (rule conjI)
qed

lemma primary_events_bad_mode:
  "mode \<noteq> ''above'' \<Longrightarrow> mode \<noteq> ''below'' \<Longrightarrow>
     primary_events x P l ds mode = Inl NotImplementedError"
  by (simp add: primary_events_def find_threshold_crossing_events_def)

text \<open>
  C9. The call raises, and returns nothing, in each of the three cases. With a mode
  other than above and below it raises NotImplementedError, or TypeError when the
  squeezed input has more than one dimension. With a squeezed input of more than one
  dimension it raises TypeError. When a primary run is left after the
  \<open>minThresholdLength\<close> criterion and the secondary threshold is above the primary one
  in mode above, or below it in mode below, it raises AssertionError.
\<close>

theorem usage_errors:
  "(mode \<noteq> ''above'' \<and> mode \<noteq> ''below'' \<longrightarrow>
      get_events_boundaries x P S minThresholdLength minLength maxLength ds mode
        = (if ndim (squeeze x) > 1 then Inl TypeError else Inl NotImplementedError))
   \<and> (ndim (squeeze x) > 1 \<longrightarrow>
      get_events_boundaries x P S minThresholdLength minLength maxLength ds mode = Inl TypeError)
   \<and> (ndim (squeeze x) \<le> 1
        \<and> primary_events (as_samples (squeeze x)) (primary_threshold x P) minThresholdLength ds mode
            = Inr events
        \<and> events \<noteq> []
        \<and> (mode = ''above'' \<and> secondary_threshold x S > primary_threshold x P
            \<or> mode = ''below'' \<and> secondary_threshold x S < primary_threshold x P) \<longrightarrow>
      get_events_boundaries x P S minThresholdLength minLength maxLength ds mode
        = Inl AssertionError)"
  by (auto simp: get_events_boundaries_def Let_def primary_events_bad_mode)

text \<open>
  C9 at the mode \<open>sideways\<close>, at an array of shape \<open>(2,2)\<close>, and at \<open>x = [0,5,0]\<close> with
  the primary threshold 4 and the secondary threshold 6 in mode above.
\<close>

theorem usage_errors_witness:
  "(''sideways'' \<noteq> ''above'' \<and> ''sideways'' \<noteq> ''below'')
   \<and> get_events_boundaries (array [0, 5, 0]) (Some 4) (Some 1) None None None None ''sideways''
       = Inl NotImplementedError
   \<and> ndim (squeeze \<lparr>shape = [2, 2], data = [0, 5, 0, 5]\<rparr>) > 1
   \<and> get_events_boundaries \<lparr>shape = [2, 2], data = [0, 5, 0, 5]\<rparr> (Some 4) (Some 1) None None None
        None ''above'' = Inl TypeError
   \<and> primary_events (as_samples (squeeze (array [0, 5, 0])))
        (primary_threshold (array [0, 5, 0]) (Some 4)) None None ''above'' = Inr [(1, 1)]
   \<and> secondary_threshold (array [0, 5, 0]) (Some 6) > primary_threshold (array [0, 5, 0]) (Some 4)
   \<and> get_events_boundaries (array [0, 5, 0]) (Some 4) (Some 6) None None None None ''above''
       = Inl AssertionError"
proof -
  have a: "''sideways'' \<noteq> ''above'' \<and> ''sideways'' \<noteq> ''below''" by simp
  have b: "ndim (squeeze \<lparr>shape = [2, 2], data = [0, 5, 0, 5]\<rparr>) > 1"
    by (simp add: ndim_def squeeze_def)
  have c: "primary_events (as_samples (squeeze (array [0, 5, 0])))
             (primary_threshold (array [0, 5, 0]) (Some 4)) None None ''above'' = Inr [(1, 1)]"
    by (simp add: boundaries_eval)
  have d: "secondary_threshold (array [0, 5, 0]) (Some 6)
             > primary_threshold (array [0, 5, 0]) (Some 4)"
    by (simp add: primary_threshold_def secondary_threshold_def)
  have n: "ndim (squeeze (array [0, 5, 0])) \<le> 1"
    by (simp add: ndim_def squeeze_def array_def)
  note u1 = usage_errors [of "''sideways''" "array [0, 5, 0]" "Some 4" "Some 1" None None None None,
      THEN conjunct1, rule_format, OF a]
  note u2 = usage_errors [of _ "\<lparr>shape = [2, 2], data = [0, 5, 0, 5]\<rparr>" "Some 4" "Some 1" None None
      None None, THEN conjunct2, THEN conjunct1, rule_format, OF b]
  note u3 = usage_errors [of "''above''" "array [0, 5, 0]" "Some 4" "Some 6" None None None None
      "[(1, 1)]", THEN conjunct2, THEN conjunct2, rule_format]
  have u3': "get_events_boundaries (array [0, 5, 0]) (Some 4) (Some 6) None None None None ''above''
               = Inl AssertionError"
    using u3 n c d by simp
  from a b c d u1 u2 u3' n show ?thesis by simp
qed

section \<open>Removing the repeated windows\<close>

lemma take_indices_nat:
  "take_indices xs (map int ns) = Inr vs \<Longrightarrow> vs = map ((!) xs) ns \<and> (\<forall>n\<in>set ns. n < length xs)"
proof (induction ns arbitrary: vs)
  case Nil
  then show ?case by simp
next
  case (Cons n ns)
  then show ?case
    by (auto simp: getitem_def Let_def split: sum.splits if_splits)
qed

lemma first_index_less:
  "v \<in> set a \<Longrightarrow> first_index a v < length a"
  unfolding first_index_def by (induction a) auto

lemma nth_first_index:
  "v \<in> set a \<Longrightarrow> a ! first_index a v = v"
  unfolding first_index_def by (induction a) auto

lemma map_nth_first_index:
  "set us \<subseteq> set a \<Longrightarrow> map (\<lambda>u. a ! first_index a u) us = us"
  by (induction us) (auto simp: nth_first_index)

lemma remove_repeats_rows:
  assumes "remove_repeats (cb, cm, ce) = Inr (bounds, maxes, events)"
  defines "js \<equiv> map (first_index (map fst cb)) (sort (remdups (map fst cb)))"
  shows "bounds = map ((!) cb) js" "maxes = map ((!) cm) js" "events = map ((!) ce) js"
    "\<forall>j\<in>set js. j < length cb \<and> j < length cm \<and> j < length ce"
proof -
  have idx: "unique_index (map fst cb) = map int js"
    by (simp add: unique_index_def js_def)
  from assms(1) obtain
    b: "take_indices cb (map int js) = Inr bounds" and
    m: "take_indices cm (map int js) = Inr maxes" and
    e: "take_indices ce (map int js) = Inr events"
    by (auto simp: remove_repeats_def idx Let_def split: sum.splits)
  from take_indices_nat [OF b] take_indices_nat [OF m] take_indices_nat [OF e]
  show "bounds = map ((!) cb) js" "maxes = map ((!) cm) js" "events = map ((!) ce) js"
    "\<forall>j\<in>set js. j < length cb \<and> j < length cm \<and> j < length ce"
    by simp_all
qed

lemma remove_repeats_starts:
  assumes "remove_repeats (cb, cm, ce) = Inr (bounds, maxes, events)"
  shows "map fst bounds = sort (remdups (map fst cb))"
proof -
  let ?a = "map fst cb"
  let ?us = "sort (remdups ?a)"
  have sub: "set ?us \<subseteq> set ?a" by simp
  have "map fst bounds = map (\<lambda>u. fst (cb ! first_index ?a u)) ?us"
    using remove_repeats_rows(1) [OF assms] by (simp add: comp_def)
  also have "\<dots> = map (\<lambda>u. ?a ! first_index ?a u) ?us"
  proof (rule map_cong [OF refl])
    fix u assume "u \<in> set ?us"
    then have "first_index ?a u < length cb"
      using first_index_less [of u ?a] by simp
    then show "fst (cb ! first_index ?a u) = ?a ! first_index ?a u" by simp
  qed
  also have "\<dots> = ?us" by (rule map_nth_first_index [OF sub])
  finally show ?thesis .
qed

lemma remove_repeats_first:
  assumes "remove_repeats (cb, cm, ce) = Inr (bounds, maxes, events)"
    and "k < length bounds"
  shows "first_index (map fst cb) (fst (bounds ! k)) < length cb
         \<and> first_index (map fst cb) (fst (bounds ! k)) < length cm
         \<and> first_index (map fst cb) (fst (bounds ! k)) < length ce
         \<and> bounds ! k = cb ! first_index (map fst cb) (fst (bounds ! k))
         \<and> maxes ! k = cm ! first_index (map fst cb) (fst (bounds ! k))
         \<and> events ! k = ce ! first_index (map fst cb) (fst (bounds ! k))"
proof -
  let ?a = "map fst cb"
  let ?us = "sort (remdups ?a)"
  let ?js = "map (first_index ?a) ?us"
  note rows = remove_repeats_rows [OF assms(1)]
  have len: "length bounds = length ?us" using rows(1) by simp
  with assms(2) have k: "k < length ?us" by simp
  have "fst (bounds ! k) = map fst bounds ! k" using assms(2) by simp
  also have "\<dots> = ?us ! k" by (simp only: remove_repeats_starts [OF assms(1)])
  finally have u: "fst (bounds ! k) = ?us ! k" .
  have j: "?js ! k = first_index ?a (fst (bounds ! k))" using k u by simp
  have "?js ! k \<in> set ?js" using k by (intro nth_mem) simp
  with rows(4) have "?js ! k < length cb \<and> ?js ! k < length cm \<and> ?js ! k < length ce" by blast
  moreover have "bounds ! k = cb ! (?js ! k)" "maxes ! k = cm ! (?js ! k)" "events ! k = ce ! (?js ! k)"
    using rows(1,2,3) k by simp_all
  ultimately show ?thesis unfolding j by simp
qed


lemma nonempty_result_stages:
  assumes "get_events_boundaries x P S minThresholdLength minLength maxLength ds mode
             = Inr (bounds, maxes, events)"
    and "bounds \<noteq> []"
  shows "\<exists>pe cb cm ce.
           primary_events (as_samples (squeeze x)) (primary_threshold x P) minThresholdLength ds mode
             = Inr pe
           \<and> event_windows (as_samples (squeeze x)) (secondary_threshold x S) minLength maxLength
                ds mode pe = Inr (cb, cm, ce)
           \<and> remove_repeats (cb, cm, ce) = Inr (bounds, maxes, events)"
  using assms unfolding get_events_boundaries_def Let_def
  by (auto split: if_splits sum.splits prod.splits)

text \<open>
  C3. When the function returns windows, their starts are all different (as many
  distinct starts as windows) and strictly ascending. The windows come from the
  candidates, the rows left by the length criteria: every start of a candidate is the
  start of exactly one returned window, and the \<open>k\<close>-th returned window, peak and event
  are those of the first candidate that has its start.
\<close>

theorem windows_deduplicated:
  assumes "get_events_boundaries x P S minThresholdLength minLength maxLength ds mode
             = Inr (bounds, maxes, events)"
    and "bounds \<noteq> []"
  shows "card (set (map fst bounds)) = length bounds
         \<and> sorted_wrt (<) (map fst bounds)
         \<and> (\<exists>pe cb cm ce.
               primary_events (as_samples (squeeze x)) (primary_threshold x P) minThresholdLength
                 ds mode = Inr pe
               \<and> event_windows (as_samples (squeeze x)) (secondary_threshold x S) minLength
                    maxLength ds mode pe = Inr (cb, cm, ce)
               \<and> set (map fst bounds) = set (map fst cb)
               \<and> (\<forall>k<length bounds.
                     first_index (map fst cb) (fst (bounds ! k)) < length cb
                     \<and> first_index (map fst cb) (fst (bounds ! k)) < length cm
                     \<and> first_index (map fst cb) (fst (bounds ! k)) < length ce
                     \<and> bounds ! k = cb ! first_index (map fst cb) (fst (bounds ! k))
                     \<and> maxes ! k = cm ! first_index (map fst cb) (fst (bounds ! k))
                     \<and> events ! k = ce ! first_index (map fst cb) (fst (bounds ! k))))"
proof -
  from nonempty_result_stages [OF assms] obtain pe cb cm ce where
    pe: "primary_events (as_samples (squeeze x)) (primary_threshold x P) minThresholdLength
           ds mode = Inr pe" and
    ew: "event_windows (as_samples (squeeze x)) (secondary_threshold x S) minLength
           maxLength ds mode pe = Inr (cb, cm, ce)" and
    rr: "remove_repeats (cb, cm, ce) = Inr (bounds, maxes, events)"
    by blast
  note starts = remove_repeats_starts [OF rr]
  have d: "distinct (map fst bounds)" and s: "sorted (map fst bounds)"
    unfolding starts by simp_all
  have "card (set (map fst bounds)) = length bounds"
    using distinct_card [OF d] by simp
  moreover have "sorted_wrt (<) (map fst bounds)"
    using d s by (simp only: strict_sorted_iff)
  moreover have "set (map fst bounds) = set (map fst cb)"
    unfolding starts by simp
  moreover note remove_repeats_first [OF rr] pe ew
  ultimately show ?thesis by blast
qed

text \<open>
  C3 at \<open>x = [0,2,5,2,5,2,0]\<close> with the primary threshold 4 and the secondary
  threshold 1: the primary runs \<open>(2,2)\<close> and \<open>(4,4)\<close> both get the window \<open>(1,5)\<close>, which
  is returned once, with the first of the two events.
\<close>

theorem windows_deduplicated_witness:
  "get_events_boundaries (array [0, 2, 5, 2, 5, 2, 0]) (Some 4) (Some 1) None None None None
       ''above'' = Inr ([(1, 5)], [5], [(2, 2)])
   \<and> [(1 :: nat, 5 :: nat)] \<noteq> []
   \<and> card (set (map fst [(1 :: nat, 5 :: nat)])) = length [(1 :: nat, 5 :: nat)]
   \<and> sorted_wrt (<) (map fst [(1 :: nat, 5 :: nat)])
   \<and> (\<exists>pe cb cm ce.
         primary_events (as_samples (squeeze (array [0, 2, 5, 2, 5, 2, 0])))
           (primary_threshold (array [0, 2, 5, 2, 5, 2, 0]) (Some 4)) None None ''above'' = Inr pe
         \<and> event_windows (as_samples (squeeze (array [0, 2, 5, 2, 5, 2, 0])))
              (secondary_threshold (array [0, 2, 5, 2, 5, 2, 0]) (Some 1)) None None None ''above'' pe
              = Inr (cb, cm, ce)
         \<and> set (map fst [(1 :: nat, 5 :: nat)]) = set (map fst cb)
         \<and> (\<forall>k<length [(1 :: nat, 5 :: nat)].
               first_index (map fst cb) (fst ([(1 :: nat, 5 :: nat)] ! k)) < length cb
               \<and> first_index (map fst cb) (fst ([(1 :: nat, 5 :: nat)] ! k)) < length cm
               \<and> first_index (map fst cb) (fst ([(1 :: nat, 5 :: nat)] ! k)) < length ce
               \<and> [(1 :: nat, 5 :: nat)] ! k = cb ! first_index (map fst cb) (fst ([(1 :: nat, 5 :: nat)] ! k))
               \<and> [5 :: real] ! k = cm ! first_index (map fst cb) (fst ([(1 :: nat, 5 :: nat)] ! k))
               \<and> [(2 :: nat, 2 :: nat)] ! k = ce ! first_index (map fst cb) (fst ([(1 :: nat, 5 :: nat)] ! k))))"
proof -
  have h: "get_events_boundaries (array [0, 2, 5, 2, 5, 2, 0]) (Some 4) (Some 1) None None None
             None ''above'' = Inr ([(1, 5)], [5], [(2, 2)])"
    by (simp add: boundaries_eval)
  have n: "[(1 :: nat, 5 :: nat)] \<noteq> []" by simp
  note w = windows_deduplicated [OF h n]
  from h n w [THEN conjunct1] w [THEN conjunct2, THEN conjunct1]
    w [THEN conjunct2, THEN conjunct2]
  show ?thesis by (intro conjI)
qed


section \<open>The duration criteria\<close>

lemma durations_duration: "durations runs d = map (\<lambda>r. duration r d) runs"
  by (simp add: durations_def duration_def case_prod_unfold)

lemma take_mask_self: "take_mask xs (map p xs) = filter p xs"
  unfolding take_mask_def by (induction xs) auto

lemma take_mask_rows:
  assumes "length ys = length xs" "length zs = length xs"
  shows "zip (take_mask xs (map p xs)) (zip (take_mask ys (map p xs)) (take_mask zs (map p xs)))
           = filter (\<lambda>(w, m, ev). p w) (zip xs (zip ys zs))
         \<and> length (take_mask ys (map p xs)) = length (take_mask xs (map p xs))
         \<and> length (take_mask zs (map p xs)) = length (take_mask xs (map p xs))"
  using assms
proof (induction xs arbitrary: ys zs)
  case Nil
  then show ?case by (simp add: take_mask_def)
next
  case (Cons x xs)
  then obtain y ys' z zs' where yz: "ys = y # ys'" "zs = z # zs'"
    "length ys' = length xs" "length zs' = length xs"
    by (cases ys; cases zs) auto
  from Cons.IH [OF yz(3,4)] show ?case
    unfolding yz by (simp add: take_mask_def)
qed

lemma primary_events_filter:
  "primary_events x P minThresholdLength (Some d) mode
     = (case find_threshold_crossing_events x P mode of
          Inl e \<Rightarrow> Inl e
        | Inr (runs, peaks) \<Rightarrow>
            Inr (filter (\<lambda>r. in_limits minThresholdLength None (duration r d)) runs))"
  by (auto simp: primary_events_def in_limits_def durations_duration take_mask_self comp_def
           split: sum.splits option.splits)

lemma outer_windows_lengths:
  "outer_windows x S mode events = Inr (ob, om) \<Longrightarrow>
     length ob = length events \<and> length om = length events"
  by (auto simp: outer_windows_def Let_def searchsorted_def
           split: sum.splits prod.splits if_splits dest!: take_indices_length)

lemma length_criterion_rows:
  assumes "length m = length b" "length e = length b"
  shows "\<exists>b' m' e'. length_criterion rel limit (Some d) (b, m, e) = Inr (b', m', e')
           \<and> zip b' (zip m' e')
               = filter (\<lambda>(w, pk, ev). case limit of None \<Rightarrow> True | Some l \<Rightarrow> rel (duration w d) l)
                   (zip b (zip m e))
           \<and> length m' = length b' \<and> length e' = length b'"
proof (cases limit)
  case None
  with assms show ?thesis by (simp add: length_criterion_def)
next
  case (Some l)
  show ?thesis
  proof (cases "e = []")
    case True
    with assms Some show ?thesis by (simp add: length_criterion_def)
  next
    case False
    from take_mask_rows [OF assms, of "\<lambda>w. rel (duration w d) l"] False Some
    show ?thesis
      by (simp add: length_criterion_def durations_duration comp_def Let_def)
  qed
qed

lemma filter_rows_within:
  "filter (\<lambda>(w, pk, ev). case hi of None \<Rightarrow> True | Some l \<Rightarrow> duration w d \<le> l)
     (filter (\<lambda>(w, pk, ev). case lo of None \<Rightarrow> True | Some l \<Rightarrow> l \<le> duration w d) rows)
   = filter (\<lambda>(w, pk, ev). in_limits lo hi (duration w d)) rows"
  by (auto simp: in_limits_def intro: filter_cong)

lemma event_windows_rows:
  assumes "outer_windows x S mode events = Inr (ob, om)"
  shows "\<exists>cb cm ce.
           event_windows x S minLength maxLength (Some d) mode events = Inr (cb, cm, ce)
           \<and> zip cb (zip cm ce)
               = filter (\<lambda>(w, pk, ev). in_limits minLength maxLength (duration w d))
                   (zip ob (zip om events))
           \<and> length cm = length cb \<and> length ce = length cb"
proof -
  from outer_windows_lengths [OF assms]
  have l: "length om = length ob" "length events = length ob" by simp_all
  from length_criterion_rows [OF l, of "(\<ge>)" minLength d] obtain b1 m1 e1 where
    c1: "length_criterion (\<ge>) minLength (Some d) (ob, om, events) = Inr (b1, m1, e1)" and
    r1: "zip b1 (zip m1 e1)
           = filter (\<lambda>(w, pk, ev). case minLength of None \<Rightarrow> True | Some l \<Rightarrow> l \<le> duration w d)
               (zip ob (zip om events))" and
    l1: "length m1 = length b1" "length e1 = length b1"
    by auto
  from length_criterion_rows [OF l1, of "(\<le>)" maxLength d] obtain b2 m2 e2 where
    c2: "length_criterion (\<le>) maxLength (Some d) (b1, m1, e1) = Inr (b2, m2, e2)" and
    r2: "zip b2 (zip m2 e2)
           = filter (\<lambda>(w, pk, ev). case maxLength of None \<Rightarrow> True | Some l \<Rightarrow> duration w d \<le> l)
               (zip b1 (zip m1 e1))" and
    l2: "length m2 = length b2" "length e2 = length b2"
    by auto
  have "event_windows x S minLength maxLength (Some d) mode events = Inr (b2, m2, e2)"
    by (simp add: event_windows_def assms c1 c2)
  moreover have "zip b2 (zip m2 e2)
      = filter (\<lambda>(w, pk, ev). in_limits minLength maxLength (duration w d)) (zip ob (zip om events))"
    unfolding r2 r1 by (rule filter_rows_within)
  ultimately show ?thesis using l2 by blast
qed


lemma returned_rows_in_limits:
  assumes geb: "get_events_boundaries x P S minThresholdLength minLength maxLength (Some d) mode
                  = Inr (bounds, maxes, events)"
    and k: "k < length bounds"
  shows "in_limits minThresholdLength None (duration (events ! k) d)
         \<and> in_limits minLength maxLength (duration (bounds ! k) d)"
proof -
  from k have "bounds \<noteq> []" by auto
  from nonempty_result_stages [OF geb this] obtain pe cb cm ce where
    pe: "primary_events (as_samples (squeeze x)) (primary_threshold x P) minThresholdLength
           (Some d) mode = Inr pe" and
    ew: "event_windows (as_samples (squeeze x)) (secondary_threshold x S) minLength
           maxLength (Some d) mode pe = Inr (cb, cm, ce)" and
    rr: "remove_repeats (cb, cm, ce) = Inr (bounds, maxes, events)"
    by blast
  from ew obtain ob om where
    ow: "outer_windows (as_samples (squeeze x)) (secondary_threshold x S) mode pe = Inr (ob, om)"
    by (auto simp: event_windows_def split: sum.splits)
  from event_windows_rows [OF ow, of minLength maxLength d] ew
  have rows: "zip cb (zip cm ce)
                = filter (\<lambda>(w, pk, ev). in_limits minLength maxLength (duration w d))
                    (zip ob (zip om pe))"
    and len: "length cm = length cb" "length ce = length cb"
    by auto
  let ?j = "first_index (map fst cb) (fst (bounds ! k))"
  from remove_repeats_first [OF rr k]
  have j: "?j < length cb" and b: "bounds ! k = cb ! ?j" and e: "events ! k = ce ! ?j"
    by simp_all
  have "(cb ! ?j, cm ! ?j, ce ! ?j) = zip cb (zip cm ce) ! ?j"
    using j len by simp
  also have "\<dots> \<in> set (zip cb (zip cm ce))"
    using j len by (intro nth_mem) simp
  finally have row: "(cb ! ?j, cm ! ?j, ce ! ?j)
      \<in> set (filter (\<lambda>(w, pk, ev). in_limits minLength maxLength (duration w d))
                (zip ob (zip om pe)))"
    unfolding rows .
  then have w: "in_limits minLength maxLength (duration (cb ! ?j) d)" by simp
  from row have "(cb ! ?j, cm ! ?j, ce ! ?j) \<in> set (zip ob (zip om pe))" by simp
  then have "ce ! ?j \<in> set pe"
    by (meson set_zip_rightD)
  moreover from pe have "\<forall>r\<in>set pe. in_limits minThresholdLength None (duration r d)"
    unfolding primary_events_filter by (auto split: sum.splits)
  ultimately have "in_limits minThresholdLength None (duration (ce ! ?j) d)" by blast
  with w b e show ?thesis by simp
qed

text \<open>
  The duration criteria as the code applies them. Every duration is
  \<open>(stop - start + 1) * ds\<close> (\<open>duration\<close>), and:
  \<^item> the \<open>minThresholdLength\<close> criterion keeps the primary runs whose own duration is at
    least the limit;
  \<^item> the \<open>minLength\<close> and \<open>maxLength\<close> criteria keep the rows (window, peak, event) whose
    window has a duration between the limits, the window being the secondary run that
    \<open>outer_windows\<close> pairs with the event; the duration of the event is not looked at;
  \<^item> so every returned event lasts at least \<open>minThresholdLength\<close> and every returned
    window lasts at least \<open>minLength\<close> and at most \<open>maxLength\<close>;
  \<^item> at \<open>x = [0,2,5,2,0,0,5,0]\<close> with the thresholds 4 and 1, \<open>ds = 1\<close> and
    \<open>minLength = 3\<close> the only window returned is \<open>(1,3)\<close>.
\<close>

lemma paired_window_criteria:
  "primary_events (as_samples (squeeze x)) (primary_threshold x P) minThresholdLength (Some d) mode
     = (case find_threshold_crossing_events (as_samples (squeeze x)) (primary_threshold x P) mode of
          Inl e \<Rightarrow> Inl e
        | Inr (runs, peaks) \<Rightarrow>
            Inr (filter (\<lambda>r. in_limits minThresholdLength None (duration r d)) runs))
   \<and> (outer_windows (as_samples (squeeze x)) (secondary_threshold x S) mode pe = Inr (ob, om) \<longrightarrow>
        (\<exists>cb cm ce.
           event_windows (as_samples (squeeze x)) (secondary_threshold x S) minLength maxLength
             (Some d) mode pe = Inr (cb, cm, ce)
           \<and> zip cb (zip cm ce)
               = filter (\<lambda>(w, pk, ev). in_limits minLength maxLength (duration w d))
                   (zip ob (zip om pe))
           \<and> length cm = length cb \<and> length ce = length cb))
   \<and> (get_events_boundaries x P S minThresholdLength minLength maxLength (Some d) mode
         = Inr (bounds, maxes, events) \<longrightarrow>
        (\<forall>k<length bounds.
           in_limits minThresholdLength None (duration (events ! k) d)
           \<and> in_limits minLength maxLength (duration (bounds ! k) d)))
   \<and> get_events_boundaries (array [0, 2, 5, 2, 0, 0, 5, 0]) (Some 4) (Some 1) None (Some 3) None
        (Some 1) ''above'' = Inr ([(1, 3)], [5], [(2, 2)])"
proof (intro conjI impI allI)
  show "primary_events (as_samples (squeeze x)) (primary_threshold x P) minThresholdLength (Some d)
          mode
     = (case find_threshold_crossing_events (as_samples (squeeze x)) (primary_threshold x P) mode of
          Inl e \<Rightarrow> Inl e
        | Inr (runs, peaks) \<Rightarrow>
            Inr (filter (\<lambda>r. in_limits minThresholdLength None (duration r d)) runs))"
    by (rule primary_events_filter)
next
  assume "outer_windows (as_samples (squeeze x)) (secondary_threshold x S) mode pe = Inr (ob, om)"
  then show "\<exists>cb cm ce.
           event_windows (as_samples (squeeze x)) (secondary_threshold x S) minLength maxLength
             (Some d) mode pe = Inr (cb, cm, ce)
           \<and> zip cb (zip cm ce)
               = filter (\<lambda>(w, pk, ev). in_limits minLength maxLength (duration w d))
                   (zip ob (zip om pe))
           \<and> length cm = length cb \<and> length ce = length cb"
    by (rule event_windows_rows)
next
  fix k
  assume "get_events_boundaries x P S minThresholdLength minLength maxLength (Some d) mode
            = Inr (bounds, maxes, events)" "k < length bounds"
  then show "in_limits minThresholdLength None (duration (events ! k) d)"
    "in_limits minLength maxLength (duration (bounds ! k) d)"
    using returned_rows_in_limits by blast+
next
  show "get_events_boundaries (array [0, 2, 5, 2, 0, 0, 5, 0]) (Some 4) (Some 1) None (Some 3) None
        (Some 1) ''above'' = Inr ([(1, 3)], [5], [(2, 2)])"
    by (simp add: boundaries_eval)
qed


text \<open>
  C5, at \<open>x = [0,2,2,2,0,5,0]\<close> with the primary threshold 4, the secondary threshold
  1, \<open>ds = 1\<close> and \<open>minLength = 3\<close>, mode above. The only primary run is \<open>(5,5)\<close>; the
  secondary runs are \<open>(1,3)\<close> and \<open>(5,5)\<close>, and the one that encloses the primary run is
  \<open>(5,5)\<close>, of duration 1, below \<open>minLength\<close>. The run \<open>(5,5)\<close> starts where the primary
  run starts, so the code pairs the event with the secondary run before it, \<open>(1,3)\<close>, and
  applies \<open>minLength\<close> to the duration 3 of that run: the function returns the window
  \<open>(1,3)\<close> with peak 2 for the event \<open>(5,5)\<close>, where the criterion on the enclosing run
  leaves nothing.
\<close>

theorem min_length_on_run_before_enclosing:
  "find_threshold_crossing_events (Vector [0, 2, 2, 2, 0, 5, 0]) 4 ''above'' = Inr ([(5, 5)], [5])
   \<and> find_threshold_crossing_events (Vector [0, 2, 2, 2, 0, 5, 0]) 1 ''above''
       = Inr ([(1, 3), (5, 5)], [2, 5])
   \<and> duration (5, 5) 1 < 3
   \<and> get_events_boundaries (array [0, 2, 2, 2, 0, 5, 0]) (Some 4) (Some 1) None (Some 3) None
        (Some 1) ''above'' = Inr ([(1, 3)], [2], [(5, 5)])"
  by (simp add: boundaries_eval duration_def)

section \<open>The segments of a sequence of positions that is not empty\<close>

lemma take_indices_in_range:
  "\<forall>n\<in>set ns. n < length xs \<Longrightarrow> take_indices xs (map int ns) = Inr (map ((!) xs) ns)"
  by (induction ns) (auto simp: getitem_def)

lemma filter_upt_Cons:
  "filter B [lo..<m] = b # bs \<Longrightarrow>
     lo \<le> b \<and> b < m \<and> B b \<and> (\<forall>i. lo \<le> i \<and> i < b \<longrightarrow> \<not> B i) \<and> bs = filter B [Suc b..<m]"
proof (induction "m - lo" arbitrary: lo)
  case 0
  then show ?case by simp
next
  case (Suc d)
  then have lt: "lo < m" by simp
  then have upt: "[lo..<m] = lo # [Suc lo..<m]" by (rule upt_conv_Cons)
  show ?case
  proof (cases "B lo")
    case True
    with Suc.prems upt lt show ?thesis by auto
  next
    case False
    with Suc.prems upt have f: "filter B [Suc lo..<m] = b # bs" by simp
    have "d = m - Suc lo" using Suc.hyps(2) by simp
    from Suc.hyps(1) [OF this f]
    have r: "Suc lo \<le> b" "b < m" "B b" "\<forall>i. Suc lo \<le> i \<and> i < b \<longrightarrow> \<not> B i"
      "bs = filter B [Suc b..<m]"
      by simp_all
    have "\<not> B i" if "lo \<le> i \<and> i < b" for i
    proof (cases "i = lo")
      case True
      with False show ?thesis by simp
    next
      case False
      with that have "Suc lo \<le> i \<and> i < b" by simp
      with r(4) show ?thesis by blast
    qed
    with r show ?thesis by simp
  qed
qed

lemma filter_upt_Nil:
  "filter B [lo..<m] = [] \<Longrightarrow> \<forall>i. lo \<le> i \<and> i < m \<longrightarrow> \<not> B i"
  by (auto simp: filter_empty_conv)

text \<open>The pairs of a start and a stop made from the breaks from \<open>lo\<close> on, the last stop being \<open>m\<close>.\<close>

lemma segment_pairs:
  assumes "bs = filter B [lo..<m]" "lo \<le> m"
  shows "(\<forall>(s, e)\<in>set (zip (lo # map Suc bs) (bs @ [m])).
            lo \<le> s \<and> s \<le> e \<and> e \<le> m
            \<and> (\<forall>i. s \<le> i \<and> i < e \<longrightarrow> \<not> B i)
            \<and> (lo < s \<longrightarrow> B (s - 1))
            \<and> (e < m \<longrightarrow> B e))
         \<and> sorted_wrt (\<lambda>r r'. snd r < fst r') (zip (lo # map Suc bs) (bs @ [m]))
         \<and> (\<forall>i. lo \<le> i \<and> i \<le> m \<longrightarrow> (\<exists>(s, e)\<in>set (zip (lo # map Suc bs) (bs @ [m])). s \<le> i \<and> i \<le> e))"
  using assms
proof (induction bs arbitrary: lo)
  case Nil
  from filter_upt_Nil [OF Nil.prems(1) [symmetric]] Nil.prems(2) show ?case by simp
next
  case (Cons b bs)
  from filter_upt_Cons [OF Cons.prems(1) [symmetric]]
  have b: "lo \<le> b" "b < m" "B b" "\<forall>i. lo \<le> i \<and> i < b \<longrightarrow> \<not> B i" and
    bs: "bs = filter B [Suc b..<m]"
    by simp_all
  from b have le: "Suc b \<le> m" by simp
  note IH = Cons.IH [OF bs le]
  let ?rest = "zip (Suc b # map Suc bs) (bs @ [m])"
  have z: "zip (lo # map Suc (b # bs)) ((b # bs) @ [m]) = (lo, b) # ?rest" by simp
  have 1: "\<forall>(s, e)\<in>set ((lo, b) # ?rest).
            lo \<le> s \<and> s \<le> e \<and> e \<le> m
            \<and> (\<forall>i. s \<le> i \<and> i < e \<longrightarrow> \<not> B i)
            \<and> (lo < s \<longrightarrow> B (s - 1))
            \<and> (e < m \<longrightarrow> B e)"
  proof (clarify, intro conjI)
    fix s e assume "(s, e) \<in> set ((lo, b) # ?rest)"
    then consider "s = lo" "e = b" | "(s, e) \<in> set ?rest" by auto
    then have "lo \<le> s \<and> s \<le> e \<and> e \<le> m
            \<and> (\<forall>i. s \<le> i \<and> i < e \<longrightarrow> \<not> B i)
            \<and> (lo < s \<longrightarrow> B (s - 1))
            \<and> (e < m \<longrightarrow> B e)"
    proof cases
      case 1
      with b show ?thesis by simp
    next
      case 2
      with IH have r: "Suc b \<le> s" "s \<le> e" "e \<le> m" "\<forall>i. s \<le> i \<and> i < e \<longrightarrow> \<not> B i"
        "Suc b < s \<longrightarrow> B (s - 1)" "e < m \<longrightarrow> B e"
        by auto
      have "B (s - 1)"
      proof (cases "Suc b < s")
        case True
        with r(5) show ?thesis by simp
      next
        case False
        with r(1) have "s = Suc b" by simp
        with b(3) show ?thesis by simp
      qed
      with r b(1) show ?thesis by simp
    qed
    then show "lo \<le> s" "s \<le> e" "e \<le> m" "\<forall>i. s \<le> i \<and> i < e \<longrightarrow> \<not> B i"
      "lo < s \<longrightarrow> B (s - 1)" "e < m \<longrightarrow> B e"
      by simp_all
  qed
  have 2: "sorted_wrt (\<lambda>r r'. snd r < fst r') ((lo, b) # ?rest)"
    using IH by (simp only: sorted_wrt.simps) auto
  have 3: "\<forall>i. lo \<le> i \<and> i \<le> m \<longrightarrow> (\<exists>(s, e)\<in>set ((lo, b) # ?rest). s \<le> i \<and> i \<le> e)"
  proof (intro allI impI)
    fix i assume i: "lo \<le> i \<and> i \<le> m"
    show "\<exists>(s, e)\<in>set ((lo, b) # ?rest). s \<le> i \<and> i \<le> e"
    proof (cases "i \<le> b")
      case True
      with i show ?thesis by simp
    next
      case False
      then have "Suc b \<le> i \<and> i \<le> m" using i by simp
      with IH have "\<exists>(s, e)\<in>set ?rest. s \<le> i \<and> i \<le> e" by blast
      then show ?thesis by auto
    qed
  qed
  from 1 2 3 show ?case unfolding z by blast
qed


lemma length_diff: "length (diff a) = length a - 1"
  by (simp add: diff_def)

lemma nth_diff: "Suc i < length a \<Longrightarrow> diff a ! i = a ! Suc i - a ! i"
  by (simp add: diff_def nth_butlast nth_tl)

lemma argwhere_breaks:
  "argwhere (map (\<lambda>d. case step of None \<Rightarrow> False | Some s \<Rightarrow> d \<ge> 2 * s) (diff a))
     = filter (break_at a step) [0..<length a - 1]"
  unfolding argwhere_def length_map length_diff
  by (rule filter_cong [OF refl]) (cases step; simp add: length_diff nth_diff break_at_def)

lemma in_memory_segments:
  assumes "positions \<noteq> []"
  defines "breaks \<equiv> filter (break_at positions (median (diff positions))) [0..<length positions - 1]"
  shows "get_contiguous_segments positions None sort_first True
           = Inr (map (\<lambda>(s, e). (positions ! s, positions ! e))
                    (zip (0 # map Suc breaks) (breaks @ [length positions - 1])))"
proof -
  let ?n = "length positions"
  from assms(1) have n: "0 < ?n" by simp
  have starts: "0 # map (\<lambda>b. int b + 1) breaks = map int (0 # map Suc breaks)"
    by (simp add: comp_def)
  have stops: "map int breaks @ [int ?n - 1] = map int (breaks @ [?n - 1])"
    using n by (cases positions) simp_all
  have lt: "\<forall>b\<in>set breaks. b < ?n - 1" by (auto simp: breaks_def)
  have 1: "take_indices positions (map int (0 # map Suc breaks))
             = Inr (map ((!) positions) (0 # map Suc breaks))"
    using lt n by (intro take_indices_in_range) auto
  have 2: "take_indices positions (map int (breaks @ [?n - 1]))
             = Inr (map ((!) positions) (breaks @ [?n - 1]))"
    using lt n by (intro take_indices_in_range) auto
  have "get_contiguous_segments positions None sort_first True
          = Inr (zip (map ((!) positions) (0 # map Suc breaks))
                     (map ((!) positions) (breaks @ [?n - 1])))"
    unfolding get_contiguous_segments_def Let_def
    by (simp only: if_True option.case argwhere_breaks breaks_def [symmetric] starts stops 1 2
          sum.case)
  then show ?thesis by (simp only: zip_map_map)
qed

text \<open>
  On a sequence of positions that is not empty, in memory and with the step left out,
  the function returns the first and the last position of each stretch of indices
  \<open>(s, e)\<close> that has no break inside, a break before it unless it starts the sequence,
  and a break after it unless it ends the sequence; the stretches follow one another and
  cover every index. A break stands after position \<open>i\<close> exactly when the next position is
  at least twice the median of the differences further.
\<close>

lemma contiguous_segments_nonempty:
  assumes "positions \<noteq> []"
  shows "\<exists>rs. get_contiguous_segments positions None sort_first True
                 = Inr (map (\<lambda>(s, e). (positions ! s, positions ! e)) rs)
           \<and> (\<forall>(s, e)\<in>set rs. s \<le> e \<and> e < length positions
                 \<and> (\<forall>i. s \<le> i \<and> i < e \<longrightarrow> \<not> break_at positions (median (diff positions)) i)
                 \<and> (0 < s \<longrightarrow> break_at positions (median (diff positions)) (s - 1))
                 \<and> (e + 1 < length positions \<longrightarrow> break_at positions (median (diff positions)) e))
           \<and> sorted_wrt (\<lambda>r r'. snd r < fst r') rs
           \<and> (\<forall>i<length positions. \<exists>(s, e)\<in>set rs. s \<le> i \<and> i \<le> e)"
proof -
  let ?B = "break_at positions (median (diff positions))"
  let ?m = "length positions - 1"
  let ?bs = "filter ?B [0..<?m]"
  let ?rs = "zip (0 # map Suc ?bs) (?bs @ [?m])"
  from assms have n: "0 < length positions" by simp
  from segment_pairs [OF refl, of 0 ?m ?B]
  have p: "\<forall>(s, e)\<in>set ?rs. 0 \<le> s \<and> s \<le> e \<and> e \<le> ?m
            \<and> (\<forall>i. s \<le> i \<and> i < e \<longrightarrow> \<not> ?B i) \<and> (0 < s \<longrightarrow> ?B (s - 1)) \<and> (e < ?m \<longrightarrow> ?B e)"
    and srt: "sorted_wrt (\<lambda>r r'. snd r < fst r') ?rs"
    and cov: "\<forall>i. 0 \<le> i \<and> i \<le> ?m \<longrightarrow> (\<exists>(s, e)\<in>set ?rs. s \<le> i \<and> i \<le> e)"
    by simp_all
  have "\<forall>(s, e)\<in>set ?rs. s \<le> e \<and> e < length positions
          \<and> (\<forall>i. s \<le> i \<and> i < e \<longrightarrow> \<not> ?B i) \<and> (0 < s \<longrightarrow> ?B (s - 1))
          \<and> (e + 1 < length positions \<longrightarrow> ?B e)"
  proof (clarify, intro conjI)
    fix s e assume "(s, e) \<in> set ?rs"
    with p have r: "s \<le> e" "e \<le> ?m" "\<forall>i. s \<le> i \<and> i < e \<longrightarrow> \<not> ?B i" "0 < s \<longrightarrow> ?B (s - 1)"
      "e < ?m \<longrightarrow> ?B e"
      by auto
    show "s \<le> e" by (rule r(1))
    show "e < length positions" using r(2) n by arith
    show "\<forall>i. s \<le> i \<and> i < e \<longrightarrow> \<not> ?B i" by (rule r(3))
    show "0 < s \<longrightarrow> ?B (s - 1)" by (rule r(4))
    show "e + 1 < length positions \<longrightarrow> ?B e" using r(5) by simp
  qed
  moreover have "\<forall>i<length positions. \<exists>(s, e)\<in>set ?rs. s \<le> i \<and> i \<le> e"
    using cov by simp
  moreover note srt in_memory_segments [OF assms, of sort_first]
  ultimately show ?thesis by blast
qed

text \<open>The positions \<open>[0,1,2,5,6,10]\<close>: the median of the differences is 1.\<close>

lemma contiguous_segments_example:
  "median (diff [0, 1, 2, 5, 6, 10]) = Some 1
   \<and> get_contiguous_segments [0, 1, 2, 5, 6, 10] None False True
       = Inr [(0, 2), (5, 6), (10, 10)]"
  by (simp add: segments_eval)


end
